theory Spec2Isabelle
  imports Main "HOL-Library.AList" "HOL-Library.Multiset"
begin

section \<open>Data model (src/backend/main.py, lines 16-31)\<close>

text \<open>
  The pydantic models \<^verbatim>\<open>Node\<close>, \<^verbatim>\<open>Edge\<close> and \<^verbatim>\<open>Pipeline\<close>. The cycle check reads only
  \<^verbatim>\<open>Node.id\<close>, \<^verbatim>\<open>Edge.source\<close> and \<^verbatim>\<open>Edge.target\<close>; the fields \<^verbatim>\<open>position\<close> and
  \<^verbatim>\<open>data\<close> of a node are never inspected and are kept as one opaque payload of
  type \<open>'p\<close>. The field names \<^verbatim>\<open>id\<close> and \<^verbatim>\<open>type\<close> carry a suffix, since \<open>id\<close> is
  a constant of HOL and the two records would otherwise share a field name.
\<close>

record 'p Node =
  id_node :: string
  type_node :: string
  payload :: 'p

record Edge =
  id_edge :: string
  source :: string
  target :: string
  sourceHandle :: "string option"
  targetHandle :: "string option"

record 'p Pipeline =
  nodes :: "'p Node list"
  edges :: "Edge list"

record parse_result =
  num_nodes :: int
  num_edges :: int
  is_dag :: bool

text \<open>
  The dict returned by \<^verbatim>\<open>parse_pipeline\<close> (lines 51-55), and the one exception the
  code can raise: a \<^verbatim>\<open>KeyError\<close>, from \<^verbatim>\<open>graph[edge.source]\<close> (line 65) or from
  \<^verbatim>\<open>rec_stack.remove(node_id)\<close> (line 82). The interpreter's recursion limit is
  not part of the model.
\<close>

datatype error = KeyError string

text \<open>
  The adjacency dict \<^verbatim>\<open>graph\<close> is an association list in insertion order with
  distinct keys; \<^verbatim>\<open>visited\<close> and \<^verbatim>\<open>rec_stack\<close> are the two sets shared by all calls
  of \<^verbatim>\<open>has_cycle\<close>, passed in and returned.
\<close>

type_synonym graph = "(string \<times> string list) list"
type_synonym dfs_state = "string set \<times> string set"

section \<open>Building the adjacency dict (lines 63-65)\<close>

text \<open>
  \<^verbatim>\<open>graph = {node.id: [] for node in nodes}\<close>: every node id is set to the empty
  list, a repeated id is set again. Then every edge appends its target to the list
  stored under its source; the subscript \<^verbatim>\<open>graph[edge.source]\<close> raises for a source
  that is not a key.
\<close>

definition init_graph :: "'p Node list \<Rightarrow> graph" where
  "init_graph ns = fold (\<lambda>node g. AList.update (id_node node) [] g) ns []"

fun add_edges :: "graph \<Rightarrow> Edge list \<Rightarrow> error + graph" where
  "add_edges g [] = Inr g"
| "add_edges g (edge # rest) =
     (case map_of g (source edge) of
        None \<Rightarrow> Inl (KeyError (source edge))
      | Some ts \<Rightarrow> add_edges (AList.update (source edge) (ts @ [target edge]) g) rest)"

definition build_graph :: "'p Node list \<Rightarrow> Edge list \<Rightarrow> error + graph" where
  "build_graph ns es = add_edges (init_graph ns) es"

text \<open>\<^verbatim>\<open>graph.get(node_id, [])\<close> (line 75).\<close>

definition get :: "graph \<Rightarrow> string \<Rightarrow> string list" where
  "get g node_id = (case map_of g node_id of None \<Rightarrow> [] | Some ts \<Rightarrow> ts)"

section \<open>The depth-first search (lines 70-83)\<close>

text \<open>
  \<^verbatim>\<open>has_cycle\<close> and its loop over the neighbours. The result \<open>Inr (True, s)\<close> of
  \<open>for_neighbor\<close> is the loop leaving \<^verbatim>\<open>has_cycle\<close> by \<^verbatim>\<open>return True\<close>;
  \<open>Inr (False, s)\<close> is the loop running to its end. \<^verbatim>\<open>set.remove\<close> raises when
  the element is absent.
\<close>

function has_cycle :: "graph \<Rightarrow> string \<Rightarrow> dfs_state \<Rightarrow> error + bool \<times> dfs_state"
  and for_neighbor :: "graph \<Rightarrow> string list \<Rightarrow> dfs_state \<Rightarrow> error + bool \<times> dfs_state"
where
  "has_cycle g node_id (visited, rec_stack) =
     (case for_neighbor g (get g node_id) (insert node_id visited, insert node_id rec_stack) of
        Inl e \<Rightarrow> Inl e
      | Inr (found, s) \<Rightarrow>
          if found then Inr (True, s)
          else if node_id \<in> snd s then Inr (False, (fst s, snd s - {node_id}))
          else Inl (KeyError node_id))"
| "for_neighbor g [] s = Inr (False, s)"
| "for_neighbor g (neighbor # rest) (visited, rec_stack) =
     (if neighbor \<notin> visited then
        (case has_cycle g neighbor (visited, rec_stack) of
           Inl e \<Rightarrow> Inl e
         | Inr (found, s) \<Rightarrow> if found then Inr (True, s) else for_neighbor g rest s)
      else if neighbor \<in> rec_stack then Inr (True, (visited, rec_stack))
      else for_neighbor g rest (visited, rec_stack))"
  by pat_completeness auto


text \<open>
  Termination: every neighbour list of the graph is drawn from the finite set of its
  targets, and a nested call is made only on an id that is not yet in \<^verbatim>\<open>visited\<close>,
  which never shrinks.
\<close>

definition targets :: "graph \<Rightarrow> string set" where
  "targets g = (\<Union>(k, ts) \<in> set g. set ts)"

lemma finite_targets: "finite (targets g)"
  by (auto simp: targets_def)

lemma get_subset_targets: "set (get g n) \<subseteq> targets g"
proof
  fix x assume "x \<in> set (get g n)"
  then obtain ts where "map_of g n = Some ts" "x \<in> set ts"
    by (cases "map_of g n") (auto simp: get_def)
  then have "(n, ts) \<in> set g" by (simp add: map_of_SomeD)
  with \<open>x \<in> set ts\<close> show "x \<in> targets g"
    by (auto simp: targets_def)
qed

definition search_order ::
  "((graph \<times> string \<times> dfs_state) + (graph \<times> string list \<times> dfs_state)) rel" where
  "search_order = measures
     [\<lambda>c. case c of Inl (g, n, (V, R)) \<Rightarrow> card (targets g - insert n V)
              | Inr (g, ms, (V, R)) \<Rightarrow> card ((targets g \<union> set ms) - V),
      \<lambda>c. case c of Inl _ \<Rightarrow> 1 | Inr _ \<Rightarrow> 0,
      \<lambda>c. case c of Inl _ \<Rightarrow> 0 | Inr (g, ms, s) \<Rightarrow> length ms]"

lemma wf_search_order: "wf search_order"
  by (simp add: search_order_def)

lemma search_order_body:
  "(Inr (g, get g n, insert n V, insert n R), Inl (g, n, V, R)) \<in> search_order"
proof -
  have "targets g \<union> set (get g n) = targets g"
    using get_subset_targets by blast
  then show ?thesis by (simp add: search_order_def)
qed

lemma search_order_descend:
  assumes "m \<notin> V"
  shows "(Inl (g, m, V, R), Inr (g, m # ms, V, R)) \<in> search_order"
proof -
  have "targets g - insert m V \<subset> (targets g \<union> set (m # ms)) - V"
    using assms by auto
  then have "card (targets g - insert m V) < card ((targets g \<union> set (m # ms)) - V)"
    by (intro psubset_card_mono) (auto simp: finite_targets)
  then show ?thesis by (simp add: search_order_def)
qed

lemma search_order_next:
  assumes "V \<subseteq> fst s"
  shows "(Inr (g, ms, s), Inr (g, m # ms, V, R)) \<in> search_order"
proof -
  from assms have "(targets g \<union> set ms) - fst s \<subseteq> (targets g \<union> set (m # ms)) - V"
    by auto
  then have "card ((targets g \<union> set ms) - fst s) \<le> card ((targets g \<union> set (m # ms)) - V)"
    by (intro card_mono) (auto simp: finite_targets)
  then show ?thesis by (cases s) (auto simp: search_order_def)
qed

lemma visited_grows_dom:
  "has_cycle_for_neighbor_dom (Inl (g, n, s)) \<Longrightarrow>
     has_cycle g n s = Inr (b, s') \<Longrightarrow> fst s \<subseteq> fst s'"
  "has_cycle_for_neighbor_dom (Inr (g, ms, s)) \<Longrightarrow>
     for_neighbor g ms s = Inr (b, s') \<Longrightarrow> fst s \<subseteq> fst s'"
proof (induction g n s and g ms s arbitrary: b s' and b s' rule: has_cycle_for_neighbor.pinduct)
  case (1 g node_id visited rec_stack)
  then show ?case
    by (auto simp: has_cycle.psimps split: sum.splits prod.splits if_splits)
next
  case (2 g s)
  then show ?case by (simp add: for_neighbor.psimps)
next
  case (3 g neighbor rest visited rec_stack)
  show ?case
  proof (cases "neighbor \<in> visited")
    case True
    with 3 show ?thesis
      by (auto simp: for_neighbor.psimps split: if_splits)
  next
    case False
    with 3 obtain found s1 where hc: "has_cycle g neighbor (visited, rec_stack) = Inr (found, s1)"
      by (auto simp: for_neighbor.psimps split: sum.splits)
    from "3.IH"(1)[OF False hc] have sub1: "visited \<subseteq> fst s1" by simp
    show ?thesis
    proof (cases found)
      case True
      with 3 False hc sub1 show ?thesis
        by (simp add: for_neighbor.psimps)
    next
      case nf: False
      with 3 False hc have "for_neighbor g rest s1 = Inr (b, s')"
        by (simp add: for_neighbor.psimps)
      from "3.IH"(2)[OF False hc refl nf this] sub1 show ?thesis by auto
    qed
  qed
qed

termination has_cycle
proof (relation search_order, goal_cases)
  case 1
  show ?case by (rule wf_search_order)
next
  case (2 g node_id visited rec_stack)
  show ?case by (rule search_order_body)
next
  case (3 g neighbor rest visited rec_stack)
  then show ?case by (rule search_order_descend)
next
  case (4 g neighbor rest visited rec_stack b x y)
  then have "visited \<subseteq> fst y"
    using visited_grows_dom(1)[of g neighbor "(visited, rec_stack)" x y] by simp
  then show ?case by (rule search_order_next)
next
  case (5 g neighbor rest visited rec_stack)
  show ?case by (rule search_order_next) simp
qed

section \<open>The top-level loop and the endpoint (lines 38-55, 85-90)\<close>

fun for_node :: "graph \<Rightarrow> 'p Node list \<Rightarrow> dfs_state \<Rightarrow> error + bool" where
  "for_node g [] s = Inr True"
| "for_node g (node # rest) (visited, rec_stack) =
     (if id_node node \<notin> visited then
        (case has_cycle g (id_node node) (visited, rec_stack) of
           Inl e \<Rightarrow> Inl e
         | Inr (found, s) \<Rightarrow> if found then Inr False else for_node g rest s)
      else for_node g rest (visited, rec_stack))"

definition check_is_dag :: "'p Node list \<Rightarrow> Edge list \<Rightarrow> error + bool" where
  "check_is_dag ns es =
     (case build_graph ns es of
        Inl e \<Rightarrow> Inl e
      | Inr g \<Rightarrow> for_node g ns ({}, {}))"

definition parse_pipeline :: "'p Pipeline \<Rightarrow> error + parse_result" where
  "parse_pipeline pipeline =
     (case check_is_dag (nodes pipeline) (edges pipeline) of
        Inl e \<Rightarrow> Inl e
      | Inr b \<Rightarrow> Inr \<lparr>num_nodes = int (length (nodes pipeline)),
                      num_edges = int (length (edges pipeline)),
                      is_dag = b\<rparr>)"

text \<open>Concrete nodes and edges for the examples below.\<close>

definition mk_node :: "string \<Rightarrow> unit Node" where
  "mk_node i = \<lparr>id_node = i, type_node = ''customInput'', payload = ()\<rparr>"

definition mk_edge :: "string \<Rightarrow> string \<Rightarrow> Edge" where
  "mk_edge a b = \<lparr>id_edge = a @ ''-'' @ b, source = a, target = b,
                   sourceHandle = None, targetHandle = None\<rparr>"

text \<open>
  The detector's outputs: the three fields of the answer when the endpoint returns one,
  nothing when it raises.
\<close>

definition outputs :: "error + parse_result \<Rightarrow> parse_result option" where
  "outputs r = (case r of Inl e \<Rightarrow> None | Inr v \<Rightarrow> Some v)"

section \<open>The graph that nodes and edges induce\<close>

text \<open>
  The directed graph of a request has an arc from the source to the target of every
  edge. It contains a cycle when some id reaches itself along one arc or more; a
  self-loop is a cycle of one arc.
\<close>

definition induced_edges :: "Edge list \<Rightarrow> (string \<times> string) set" where
  "induced_edges es = (\<lambda>e. (source e, target e)) ` set es"

definition contains_cycle :: "Edge list \<Rightarrow> bool" where
  "contains_cycle es \<longleftrightarrow> (\<exists>x. (x, x) \<in> (induced_edges es)\<^sup>+)"

text \<open>
  The arcs stored in an adjacency dict, and the state of a search in progress: the
  entries of \<^verbatim>\<open>rec_stack\<close> are visited, and the visited ids that are off the stack
  are finished, which means that their arcs lead to finished ids only and that none of
  them lies on a cycle.
\<close>

definition arcs :: "graph \<Rightarrow> (string \<times> string) set" where
  "arcs g = {(u, v). v \<in> set (get g u)}"

definition finished_ok :: "graph \<Rightarrow> dfs_state \<Rightarrow> bool" where
  "finished_ok g s \<longleftrightarrow>
     snd s \<subseteq> fst s \<and>
     arcs g `` (fst s - snd s) \<subseteq> fst s - snd s \<and>
     (\<forall>u \<in> fst s - snd s. (u, u) \<notin> (arcs g)\<^sup>+)"

section \<open>Facts about one call\<close>

declare has_cycle.simps [simp del]
declare for_neighbor.simps(2) [simp del]

lemma has_cycle_InrE:
  assumes "has_cycle g n (V, R) = Inr (b, s')"
  obtains (found) "for_neighbor g (get g n) (insert n V, insert n R) = Inr (True, s')" "b"
  | (finished) V' R' where
      "for_neighbor g (get g n) (insert n V, insert n R) = Inr (False, (V', R'))"
      "n \<in> R'" "s' = (V', R' - {n})" "\<not> b"
  using assms
  by (auto simp: has_cycle.simps split: sum.splits prod.splits if_splits)

lemma for_neighbor_ConsE:
  assumes "for_neighbor g (m # ms) (V, R) = Inr (b, s')"
  obtains (found_below) "m \<notin> V" "has_cycle g m (V, R) = Inr (True, s')" "b"
  | (descend) s1 where "m \<notin> V" "has_cycle g m (V, R) = Inr (False, s1)"
      "for_neighbor g ms s1 = Inr (b, s')"
  | (back_edge) "m \<in> V" "m \<in> R" "b" "s' = (V, R)"
  | (skip) "m \<in> V" "m \<notin> R" "for_neighbor g ms (V, R) = Inr (b, s')"
  using assms
  by (auto simp: for_neighbor.simps(2) split: sum.splits prod.splits if_splits)

lemma dfs_frame:
  "\<forall>b V' R'. has_cycle g n s = Inr (b, (V', R')) \<longrightarrow>
      insert n (fst s) \<subseteq> V' \<and> (n \<notin> fst s \<longrightarrow> snd s \<inter> fst s \<subseteq> R')"
  "\<forall>b V' R'. for_neighbor g ms s = Inr (b, (V', R')) \<longrightarrow>
      fst s \<subseteq> V' \<and> snd s \<inter> fst s \<subseteq> R'"
proof (induction g n s and g ms s rule: has_cycle_for_neighbor.induct)
  case (1 g node_id visited rec_stack)
  show ?case
  proof (intro allI impI)
    fix b V' R'
    assume "has_cycle g node_id (visited, rec_stack) = Inr (b, (V', R'))"
    then show "insert node_id (fst (visited, rec_stack)) \<subseteq> V' \<and>
       (node_id \<notin> fst (visited, rec_stack) \<longrightarrow>
          snd (visited, rec_stack) \<inter> fst (visited, rec_stack) \<subseteq> R')"
    proof (cases rule: has_cycle_InrE)
      case found
      from 1[rule_format, OF found(1)]
      have "insert node_id visited \<subseteq> V'"
        "insert node_id rec_stack \<inter> insert node_id visited \<subseteq> R'" by simp_all
      then show ?thesis by auto
    next
      case (finished V1 R1)
      from 1[rule_format, OF finished(1)]
      have "insert node_id visited \<subseteq> V1"
        "insert node_id rec_stack \<inter> insert node_id visited \<subseteq> R1" by simp_all
      with finished(3) show ?thesis by auto
    qed
  qed
next
  case (2 g s)
  then show ?case by simp
next
  case (3 g neighbor rest visited rec_stack)
  show ?case
  proof (intro allI impI)
    fix b V' R'
    assume "for_neighbor g (neighbor # rest) (visited, rec_stack) = Inr (b, (V', R'))"
    then show "fst (visited, rec_stack) \<subseteq> V' \<and>
       snd (visited, rec_stack) \<inter> fst (visited, rec_stack) \<subseteq> R'"
    proof (cases rule: for_neighbor_ConsE)
      case found_below
      from "3.IH"(1)[OF found_below(1), rule_format, OF found_below(2)] found_below(1)
      show ?thesis by auto
    next
      case (descend s1)
      obtain V1 R1 where s1: "s1 = (V1, R1)" by (cases s1)
      from "3.IH"(1)[OF descend(1), rule_format, OF descend(2)[unfolded s1]] descend(1)
      have a: "insert neighbor visited \<subseteq> V1" "rec_stack \<inter> visited \<subseteq> R1" by simp_all
      from "3.IH"(2)[OF descend(1) descend(2) refl, rule_format, OF _ descend(3)] s1
      have b: "V1 \<subseteq> V'" "R1 \<inter> V1 \<subseteq> R'" by simp_all
      from a b show ?thesis by auto
    next
      case back_edge
      then show ?thesis by auto
    next
      case skip
      from "3.IH"(3)[OF _ skip(2), rule_format, OF _ skip(3)] skip(1)
      show ?thesis by simp
    qed
  qed
qed

lemma dfs_no_error:
  "\<not> isl (has_cycle g n s)"
  "\<not> isl (for_neighbor g ms s)"
proof (induction g n s and g ms s rule: has_cycle_for_neighbor.induct)
  case (1 g node_id visited rec_stack)
  then obtain r where
    fn: "for_neighbor g (get g node_id) (insert node_id visited, insert node_id rec_stack) = Inr r"
    by (cases "for_neighbor g (get g node_id) (insert node_id visited, insert node_id rec_stack)")
      auto
  obtain b V' R' where r: "r = (b, (V', R'))" by (cases r) auto
  from dfs_frame(2)[of g "get g node_id" "(insert node_id visited, insert node_id rec_stack)"] fn r
  have "node_id \<in> R'" by auto
  with fn r show ?case by (simp add: has_cycle.simps)
next
  case (2 g s)
  then show ?case by simp
next
  case (3 g neighbor rest visited rec_stack)
  show ?case
  proof (cases "neighbor \<in> visited")
    case True
    with "3.IH"(3) show ?thesis by (simp add: for_neighbor.simps(2))
  next
    case False
    from "3.IH"(1)[OF False] obtain b s1 where hc: "has_cycle g neighbor (visited, rec_stack) = Inr (b, s1)"
      by (cases "has_cycle g neighbor (visited, rec_stack)") auto
    show ?thesis
    proof (cases b)
      case True
      with False hc show ?thesis by (simp add: for_neighbor.simps(2))
    next
      case nb: False
      from "3.IH"(2)[OF False hc refl nb] False hc nb show ?thesis
        by (simp add: for_neighbor.simps(2))
    qed
  qed
qed

section \<open>The execution of a call, event by event\<close>

text \<open>
  The claims about what holds during a call need the states the two sets pass
  through. The trace functions below follow \<^verbatim>\<open>has_cycle\<close>, its loop and the loop
  over the nodes statement by statement and record an event for every call of
  \<^verbatim>\<open>has_cycle\<close> (with the sets as they are on entry), for every statement that
  updates \<^verbatim>\<open>visited\<close> or \<^verbatim>\<open>rec_stack\<close> (with the sets as they are after it) and
  for every return of \<^verbatim>\<open>has_cycle\<close>. The first event of \<open>check_is_dag_trace\<close> is the
  creation of the two empty sets (lines 67-68). The events decide nothing: the results
  are those of \<open>has_cycle\<close> and \<open>for_neighbor\<close>.
\<close>

datatype event =
  Call string dfs_state
  | Update dfs_state
  | Return string dfs_state

fun state_of :: "event \<Rightarrow> dfs_state" where
  "state_of (Call n s) = s"
| "state_of (Update s) = s"
| "state_of (Return n s) = s"

function has_cycle_trace :: "graph \<Rightarrow> string \<Rightarrow> dfs_state \<Rightarrow> event list"
  and for_neighbor_trace :: "graph \<Rightarrow> string list \<Rightarrow> dfs_state \<Rightarrow> event list"
where
  "has_cycle_trace g node_id (visited, rec_stack) =
     Call node_id (visited, rec_stack)
     # Update (insert node_id visited, rec_stack)
     # Update (insert node_id visited, insert node_id rec_stack)
     # for_neighbor_trace g (get g node_id) (insert node_id visited, insert node_id rec_stack)
     @ (case for_neighbor g (get g node_id) (insert node_id visited, insert node_id rec_stack) of
          Inl e \<Rightarrow> []
        | Inr (found, s) \<Rightarrow>
            if found then [Return node_id s]
            else if node_id \<in> snd s
              then [Update (fst s, snd s - {node_id}), Return node_id (fst s, snd s - {node_id})]
              else [])"
| "for_neighbor_trace g [] s = []"
| "for_neighbor_trace g (neighbor # rest) (visited, rec_stack) =
     (if neighbor \<notin> visited then
        has_cycle_trace g neighbor (visited, rec_stack)
        @ (case has_cycle g neighbor (visited, rec_stack) of
             Inl e \<Rightarrow> []
           | Inr (found, s) \<Rightarrow> if found then [] else for_neighbor_trace g rest s)
      else if neighbor \<in> rec_stack then []
      else for_neighbor_trace g rest (visited, rec_stack))"
  by pat_completeness auto
termination has_cycle_trace
proof (relation search_order, goal_cases)
  case 1
  show ?case by (rule wf_search_order)
next
  case (2 g node_id visited rec_stack)
  show ?case by (rule search_order_body)
next
  case (3 g neighbor rest visited rec_stack)
  then show ?case by (rule search_order_descend)
next
  case (4 g neighbor rest visited rec_stack b x y)
  then have "visited \<subseteq> fst y"
    using dfs_frame(1)[of g neighbor "(visited, rec_stack)"] by (cases y) auto
  then show ?case by (rule search_order_next)
next
  case (5 g neighbor rest visited rec_stack)
  show ?case by (rule search_order_next) simp
qed

fun for_node_trace :: "graph \<Rightarrow> 'p Node list \<Rightarrow> dfs_state \<Rightarrow> event list" where
  "for_node_trace g [] s = []"
| "for_node_trace g (node # rest) (visited, rec_stack) =
     (if id_node node \<notin> visited then
        has_cycle_trace g (id_node node) (visited, rec_stack)
        @ (case has_cycle g (id_node node) (visited, rec_stack) of
             Inl e \<Rightarrow> []
           | Inr (found, s) \<Rightarrow> if found then [] else for_node_trace g rest s)
      else for_node_trace g rest (visited, rec_stack))"

definition check_is_dag_trace :: "'p Node list \<Rightarrow> Edge list \<Rightarrow> event list" where
  "check_is_dag_trace ns es =
     (case build_graph ns es of
        Inl e \<Rightarrow> []
      | Inr g \<Rightarrow> Update ({}, {}) # for_node_trace g ns ({}, {}))"

text \<open>
  The ids on which \<^verbatim>\<open>has_cycle\<close> is called, in order, and the greatest number of
  calls of \<^verbatim>\<open>has_cycle\<close> that are active at once, counted from \<open>d\<close> active calls.
\<close>

fun calls :: "event list \<Rightarrow> string list" where
  "calls [] = []"
| "calls (Call n s # t) = n # calls t"
| "calls (e # t) = calls t"

fun depth_from :: "nat \<Rightarrow> event list \<Rightarrow> nat" where
  "depth_from d [] = d"
| "depth_from d (Call n s # t) = max (Suc d) (depth_from (Suc d) t)"
| "depth_from d (Return n s # t) = max d (depth_from (d - 1) t)"
| "depth_from d (Update s # t) = depth_from d t"

text \<open>
  What the proofs establish of a trace that starts with the visited set \<open>V\<close> and ends
  with \<open>V'\<close>: the calls are on pairwise distinct ids, exactly those added to
  \<^verbatim>\<open>visited\<close>; every state lies between \<open>V\<close> and \<open>V'\<close> and has its stack inside its
  visited set; every call is on an id that is not visited on entry; the visited sets
  grow along the trace.
\<close>

fun fresh_call :: "event \<Rightarrow> bool" where
  "fresh_call (Call n s) = (n \<notin> fst s)"
| "fresh_call e = True"

definition good_trace :: "string set \<Rightarrow> string set \<Rightarrow> event list \<Rightarrow> bool" where
  "good_trace V V' t \<longleftrightarrow>
     distinct (calls t) \<and> set (calls t) = V' - V \<and>
     (\<forall>e \<in> set t. V \<subseteq> fst (state_of e) \<and> fst (state_of e) \<subseteq> V'
        \<and> snd (state_of e) \<subseteq> fst (state_of e) \<and> fresh_call e) \<and>
     sorted_wrt (\<lambda>e e'. fst (state_of e) \<subseteq> fst (state_of e')) t"

lemmas eval_defs = check_is_dag_def build_graph_def init_graph_def get_def
  has_cycle.simps for_neighbor.simps(2) mk_node_def mk_edge_def parse_pipeline_def

lemmas trace_defs = check_is_dag_trace_def build_graph_def init_graph_def get_def
  has_cycle.simps for_neighbor.simps(2) mk_node_def mk_edge_def

section \<open>Correctness of the search\<close>

lemma closed_rtrancl:
  assumes "r `` B \<subseteq> B" "(u, v) \<in> r\<^sup>*" "u \<in> B"
  shows "v \<in> B"
  using assms(2,3,1) by (induction rule: rtrancl_induct) auto

lemma finished_ok_push:
  assumes "finished_ok g (V, R)" "n \<notin> V"
  shows "finished_ok g (insert n V, insert n R)"
proof -
  from assms have "insert n V - insert n R = V - R"
    by (auto simp: finished_ok_def)
  with assms(1) show ?thesis
    by (auto simp: finished_ok_def)
qed

lemma finished_ok_pop:
  assumes ok: "finished_ok g (V', insert n R)"
    and nbrs: "set (get g n) \<subseteq> V' - insert n R"
    and n: "n \<notin> R"
  shows "finished_ok g (V', R)"
proof -
  let ?B = "V' - insert n R"
  from ok have sub: "insert n R \<subseteq> V'" and closed: "arcs g `` ?B \<subseteq> ?B"
    and acyc: "\<forall>u \<in> ?B. (u, u) \<notin> (arcs g)\<^sup>+"
    by (auto simp: finished_ok_def)
  have B': "V' - R = insert n ?B" using sub n by auto
  have out_n: "arcs g `` {n} \<subseteq> ?B" using nbrs by (auto simp: arcs_def)
  have c2: "arcs g `` (V' - R) \<subseteq> V' - R"
    unfolding B' using closed out_n by blast
  have nn: "(n, n) \<notin> (arcs g)\<^sup>+"
  proof
    assume "(n, n) \<in> (arcs g)\<^sup>+"
    then obtain v where "(n, v) \<in> arcs g" "(v, n) \<in> (arcs g)\<^sup>*"
      by (meson tranclD)
    with out_n have "v \<in> ?B" by blast
    from closed_rtrancl[OF closed \<open>(v, n) \<in> (arcs g)\<^sup>*\<close> this] show False by simp
  qed
  have c3: "\<forall>u \<in> V' - R. (u, u) \<notin> (arcs g)\<^sup>+"
    unfolding B' using acyc nn by blast
  from sub c2 c3 show ?thesis
    unfolding finished_ok_def by simp
qed


lemma dfs_correct:
  "has_cycle g n s = Inr (b, s') \<Longrightarrow> n \<notin> fst s \<Longrightarrow> finished_ok g s \<Longrightarrow>
     \<forall>r \<in> snd s. (r, n) \<in> (arcs g)\<^sup>* \<Longrightarrow>
     (if b then \<exists>x. (x, x) \<in> (arcs g)\<^sup>+
      else snd s' = snd s \<and> fst s \<subseteq> fst s' \<and> n \<in> fst s' \<and> finished_ok g s')"
  "for_neighbor g ms s = Inr (b, s') \<Longrightarrow> finished_ok g s \<Longrightarrow>
     set ms \<subseteq> set (get g c) \<Longrightarrow> \<forall>r \<in> snd s. (r, c) \<in> (arcs g)\<^sup>* \<Longrightarrow>
     (if b then \<exists>x. (x, x) \<in> (arcs g)\<^sup>+
      else snd s' = snd s \<and> fst s \<subseteq> fst s' \<and> set ms \<subseteq> fst s' - snd s \<and> finished_ok g s')"
proof (induction g n s and g ms s arbitrary: b s' and b s' c rule: has_cycle_for_neighbor.induct)
  case (1 g node_id visited rec_stack)
  let ?s1 = "(insert node_id visited, insert node_id rec_stack)"
  from "1.prems" have fresh: "node_id \<notin> visited" and ok: "finished_ok g (visited, rec_stack)"
    and path: "\<forall>r \<in> rec_stack. (r, node_id) \<in> (arcs g)\<^sup>*" by simp_all
  from ok fresh have nR: "node_id \<notin> rec_stack" by (auto simp: finished_ok_def)
  have ok1: "finished_ok g ?s1" using ok fresh by (rule finished_ok_push)
  have path1: "\<forall>r \<in> snd ?s1. (r, node_id) \<in> (arcs g)\<^sup>*" using path by simp
  from "1.prems"(1) show ?case
  proof (cases rule: has_cycle_InrE)
    case found
    from "1.IH"[OF found(1) ok1 subset_refl path1] found(2) show ?thesis by simp
  next
    case (finished V' R')
    from "1.IH"[OF finished(1) ok1 subset_refl path1]
    have R': "R' = insert node_id rec_stack" and sub: "insert node_id visited \<subseteq> V'"
      and nb: "set (get g node_id) \<subseteq> V' - insert node_id rec_stack"
      and ok': "finished_ok g (V', R')" by auto
    have "finished_ok g (V', rec_stack)"
      using ok'[unfolded R'] nb nR by (rule finished_ok_pop)
    with finished(3,4) R' sub nR show ?thesis by auto
  qed
next
  case (2 g s)
  then show ?case by simp
next
  case (3 g neighbor rest visited rec_stack)
  from "3.prems" have ok: "finished_ok g (visited, rec_stack)"
    and nbr: "neighbor \<in> set (get g c)" and rest: "set rest \<subseteq> set (get g c)"
    and path: "\<forall>r \<in> rec_stack. (r, c) \<in> (arcs g)\<^sup>*" by simp_all
  have arc: "(c, neighbor) \<in> arcs g" using nbr by (simp add: arcs_def)
  from ok have RV: "rec_stack \<subseteq> visited" by (simp add: finished_ok_def)
  have path_n: "\<forall>r \<in> snd (visited, rec_stack). (r, neighbor) \<in> (arcs g)\<^sup>*"
    using path arc by (auto intro: rtrancl_into_rtrancl)
  from "3.prems"(1) show ?case
  proof (cases rule: for_neighbor_ConsE)
    case found_below
    from "3.IH"(1)[OF found_below(1) found_below(2) _ ok path_n] found_below
    show ?thesis by simp
  next
    case (descend s1)
    from "3.IH"(1)[OF descend(1) descend(2) _ ok path_n] descend(1)
    have s1: "snd s1 = rec_stack" "visited \<subseteq> fst s1" "neighbor \<in> fst s1" "finished_ok g s1"
      by simp_all
    have path1: "\<forall>r \<in> snd s1. (r, c) \<in> (arcs g)\<^sup>*" using path s1(1) by simp
    from "3.IH"(2)[OF descend(1) descend(2) refl _ descend(3) s1(4) rest path1]
    have *: "if b then \<exists>x. (x, x) \<in> (arcs g)\<^sup>+
      else snd s' = snd s1 \<and> fst s1 \<subseteq> fst s' \<and> set rest \<subseteq> fst s' - snd s1 \<and> finished_ok g s'"
      by simp
    show ?thesis
    proof (cases b)
      case True
      with * show ?thesis by simp
    next
      case False
      with * s1 descend(1) RV show ?thesis by auto
    qed
  next
    case back_edge
    from path back_edge(2) have "(neighbor, c) \<in> (arcs g)\<^sup>*" by blast
    from this arc have "(neighbor, neighbor) \<in> (arcs g)\<^sup>+" by (rule rtrancl_into_trancl1)
    with back_edge(3) show ?thesis by auto
  next
    case skip
    have p0: "\<forall>r \<in> snd (visited, rec_stack). (r, c) \<in> (arcs g)\<^sup>*" using path by simp
    from "3.IH"(3)[OF _ skip(2) skip(3) ok rest p0] skip(1)
    have *: "if b then \<exists>x. (x, x) \<in> (arcs g)\<^sup>+
      else snd s' = rec_stack \<and> visited \<subseteq> fst s' \<and> set rest \<subseteq> fst s' - rec_stack \<and> finished_ok g s'"
      by (cases b) simp_all
    show ?thesis
    proof (cases b)
      case True
      with * show ?thesis by simp
    next
      case False
      with * skip(1,2) show ?thesis by auto
    qed
  qed
qed


lemma finished_ok_empty: "finished_ok g ({}, {})"
  by (simp add: finished_ok_def)

lemma for_node_correct:
  "finished_ok g (V, {}) \<Longrightarrow>
     \<exists>b. for_node g ns (V, {}) = Inr b \<and>
       (if b then \<forall>u \<in> V \<union> id_node ` set ns. (u, u) \<notin> (arcs g)\<^sup>+
        else \<exists>x. (x, x) \<in> (arcs g)\<^sup>+)"
proof (induction ns arbitrary: V)
  case Nil
  then show ?case by (auto simp: finished_ok_def)
next
  case (Cons node rest)
  show ?case
  proof (cases "id_node node \<in> V")
    case True
    from Cons.IH[OF Cons.prems] obtain b where
      b: "for_node g rest (V, {}) = Inr b"
        "if b then \<forall>u \<in> V \<union> id_node ` set rest. (u, u) \<notin> (arcs g)\<^sup>+
         else \<exists>x. (x, x) \<in> (arcs g)\<^sup>+" by blast
    from True b(1) have "for_node g (node # rest) (V, {}) = Inr b" by simp
    moreover from True b(2) have
      "if b then \<forall>u \<in> V \<union> id_node ` set (node # rest). (u, u) \<notin> (arcs g)\<^sup>+
       else \<exists>x. (x, x) \<in> (arcs g)\<^sup>+" by (cases b) auto
    ultimately show ?thesis by blast
  next
    case False
    from dfs_no_error(1)[of g "id_node node" "(V, {})"]
    obtain found s' where hc: "has_cycle g (id_node node) (V, {}) = Inr (found, s')"
      by (cases "has_cycle g (id_node node) (V, {})") auto
    have fresh: "id_node node \<notin> fst (V, {})" using False by simp
    have nopath: "\<forall>r \<in> snd (V, {}). (r, id_node node) \<in> (arcs g)\<^sup>*" by simp
    from dfs_correct(1)[OF hc fresh Cons.prems nopath]
    have post: "if found then \<exists>x. (x, x) \<in> (arcs g)\<^sup>+
      else snd s' = {} \<and> V \<subseteq> fst s' \<and> id_node node \<in> fst s' \<and> finished_ok g s'"
      by (cases found) simp_all
    show ?thesis
    proof (cases found)
      case True
      with False hc post show ?thesis by (intro exI[of _ False]) simp
    next
      case nf: False
      with post obtain V' where s': "s' = (V', {})" and V': "V \<subseteq> V'" "id_node node \<in> V'"
        and ok': "finished_ok g (V', {})" by (cases s') auto
      from Cons.IH[OF ok'] obtain b where
        b: "for_node g rest (V', {}) = Inr b"
          "if b then \<forall>u \<in> V' \<union> id_node ` set rest. (u, u) \<notin> (arcs g)\<^sup>+
           else \<exists>x. (x, x) \<in> (arcs g)\<^sup>+" by blast
      from False hc nf s' b(1) have "for_node g (node # rest) (V, {}) = Inr b" by simp
      moreover from V' b(2) have
        "if b then \<forall>u \<in> V \<union> id_node ` set (node # rest). (u, u) \<notin> (arcs g)\<^sup>+
         else \<exists>x. (x, x) \<in> (arcs g)\<^sup>+" by (cases b) auto
      ultimately show ?thesis by blast
    qed
  qed
qed

lemma map_of_fold_init:
  "map_of (fold (\<lambda>node g. AList.update (id_node node) [] g) ns g0) k
     = (if k \<in> id_node ` set ns then Some [] else map_of g0 k)"
  by (induction ns arbitrary: g0) (auto simp: update_conv')

lemma map_of_init_graph:
  "map_of (init_graph ns) k = (if k \<in> id_node ` set ns then Some [] else None)"
  by (simp add: init_graph_def map_of_fold_init)

lemma add_edges_ok:
  "source ` set es \<subseteq> dom (map_of g) \<Longrightarrow>
     \<exists>g'. add_edges g es = Inr g' \<and>
       (\<forall>k. map_of g' k
          = map_option (\<lambda>ts. ts @ map target (filter (\<lambda>e. source e = k) es)) (map_of g k))"
proof (induction es arbitrary: g)
  case Nil
  then show ?case by (simp add: option.map_ident)
next
  case (Cons edge rest)
  from Cons.prems obtain ts where ts: "map_of g (source edge) = Some ts" by auto
  let ?g1 = "AList.update (source edge) (ts @ [target edge]) g"
  have "source ` set rest \<subseteq> dom (map_of ?g1)"
    using Cons.prems by (auto simp: update_conv')
  from Cons.IH[OF this] obtain g' where g': "add_edges ?g1 rest = Inr g'"
    "\<forall>k. map_of g' k
       = map_option (\<lambda>ts. ts @ map target (filter (\<lambda>e. source e = k) rest)) (map_of ?g1 k)"
    by blast
  have "add_edges g (edge # rest) = Inr g'" using ts g'(1) by simp
  moreover have "\<forall>k. map_of g' k
      = map_option (\<lambda>ts. ts @ map target (filter (\<lambda>e. source e = k) (edge # rest))) (map_of g k)"
    using g'(2) ts by (auto simp: update_conv')
  ultimately show ?case by blast
qed

lemma add_edges_error:
  "\<not> source ` set es \<subseteq> dom (map_of g) \<Longrightarrow> isl (add_edges g es)"
proof (induction es arbitrary: g)
  case Nil
  then show ?case by simp
next
  case (Cons edge rest)
  show ?case
  proof (cases "map_of g (source edge)")
    case None
    then show ?thesis by simp
  next
    case (Some ts)
    let ?g1 = "AList.update (source edge) (ts @ [target edge]) g"
    have "dom (map_of ?g1) = dom (map_of g)" using Some by (auto simp: update_conv')
    with Cons.prems Some have "\<not> source ` set rest \<subseteq> dom (map_of ?g1)" by auto
    from Cons.IH[OF this] Some show ?thesis by simp
  qed
qed

lemma dom_init_graph: "dom (map_of (init_graph ns)) = id_node ` set ns"
  by (auto simp: map_of_init_graph dom_def)

lemma build_graph_ok:
  assumes "source ` set es \<subseteq> id_node ` set ns"
  shows "\<exists>g. build_graph ns es = Inr g \<and> arcs g = induced_edges es"
proof -
  from assms have "source ` set es \<subseteq> dom (map_of (init_graph ns))"
    by (simp add: dom_init_graph)
  from add_edges_ok[OF this] obtain g where g: "add_edges (init_graph ns) es = Inr g"
    "\<forall>k. map_of g k = map_option (\<lambda>ts. ts @ map target (filter (\<lambda>e. source e = k) es))
       (map_of (init_graph ns) k)" by blast
  have "arcs g = induced_edges es"
  proof (rule set_eqI, clarify)
    fix u v
    have "get g u = (if u \<in> id_node ` set ns
        then map target (filter (\<lambda>e. source e = u) es) else [])"
      using g(2) by (simp add: get_def map_of_init_graph)
    then have "v \<in> set (get g u) \<longleftrightarrow> (\<exists>e \<in> set es. source e = u \<and> target e = v)"
      using assms by (cases "u \<in> id_node ` set ns") auto
    moreover have "(u, v) \<in> induced_edges es \<longleftrightarrow> (\<exists>e \<in> set es. source e = u \<and> target e = v)"
      by (force simp: induced_edges_def)
    ultimately show "(u, v) \<in> arcs g \<longleftrightarrow> (u, v) \<in> induced_edges es"
      by (simp add: arcs_def)
  qed
  with g(1) show ?thesis by (auto simp: build_graph_def)
qed

lemma build_graph_error:
  assumes "\<not> source ` set es \<subseteq> id_node ` set ns"
  shows "isl (build_graph ns es)"
  using assms add_edges_error[of es "init_graph ns"]
  by (simp add: build_graph_def dom_init_graph)

lemma check_is_dag_decides:
  assumes "source ` set es \<subseteq> id_node ` set ns"
  shows "check_is_dag ns es = Inr (\<not> contains_cycle es)"
proof -
  from build_graph_ok[OF assms] obtain g where g: "build_graph ns es = Inr g"
    "arcs g = induced_edges es" by blast
  from for_node_correct[OF finished_ok_empty, of g ns] obtain b where
    b: "for_node g ns ({}, {}) = Inr b"
      "if b then \<forall>u \<in> {} \<union> id_node ` set ns. (u, u) \<notin> (arcs g)\<^sup>+
       else \<exists>x. (x, x) \<in> (arcs g)\<^sup>+" by blast
  have "b \<longleftrightarrow> \<not> contains_cycle es"
  proof (cases b)
    case True
    have "(x, x) \<notin> (induced_edges es)\<^sup>+" for x
    proof
      assume cyc: "(x, x) \<in> (induced_edges es)\<^sup>+"
      then obtain v where "(x, v) \<in> induced_edges es" by (meson tranclD)
      then have "x \<in> source ` set es" by (auto simp: induced_edges_def)
      with assms have "x \<in> id_node ` set ns" by blast
      with b(2) True g(2) cyc show False by auto
    qed
    with True show ?thesis by (simp add: contains_cycle_def)
  next
    case False
    with b(2) g(2) show ?thesis by (auto simp: contains_cycle_def)
  qed
  with g(1) b(1) show ?thesis by (simp add: check_is_dag_def)
qed

lemma check_is_dag_raises:
  assumes "\<not> source ` set es \<subseteq> id_node ` set ns"
  shows "isl (check_is_dag ns es)"
  using build_graph_error[OF assms]
  by (cases "build_graph ns es") (simp_all add: check_is_dag_def)



section \<open>Facts about the trace\<close>

lemma calls_append: "calls (t1 @ t2) = calls t1 @ calls t2"
  by (induction t1 rule: calls.induct) simp_all

lemma good_trace_Nil: "good_trace V V []"
  by (simp add: good_trace_def)

lemma good_trace_append:
  assumes "good_trace V V1 t1" "good_trace V1 V2 t2" "V \<subseteq> V1" "V1 \<subseteq> V2"
  shows "good_trace V V2 (t1 @ t2)"
proof -
  from assms have d: "distinct (calls (t1 @ t2))"
    by (auto simp: good_trace_def calls_append)
  from assms have c: "set (calls (t1 @ t2)) = V2 - V"
    by (auto simp: good_trace_def calls_append)
  from assms have e: "\<forall>e \<in> set (t1 @ t2). V \<subseteq> fst (state_of e) \<and> fst (state_of e) \<subseteq> V2
        \<and> snd (state_of e) \<subseteq> fst (state_of e) \<and> fresh_call e"
    unfolding good_trace_def by (simp add: ball_Un) blast
  from assms have o: "sorted_wrt (\<lambda>e e'. fst (state_of e) \<subseteq> fst (state_of e')) (t1 @ t2)"
    unfolding good_trace_def sorted_wrt_append by blast
  from d c e o show ?thesis unfolding good_trace_def by blast
qed

lemma good_trace_enter:
  assumes "n \<notin> V" "R \<subseteq> V"
  shows "good_trace V (insert n V)
     [Call n (V, R), Update (insert n V, R), Update (insert n V, insert n R)]"
  using assms by (auto simp: good_trace_def)

lemma good_trace_return:
  assumes "R' \<subseteq> V'"
  shows "good_trace V' V' [Return n (V', R')]"
  using assms by (auto simp: good_trace_def)

lemma good_trace_leave:
  assumes "R' \<subseteq> V'"
  shows "good_trace V' V' [Update (V', R' - {n}), Return n (V', R' - {n})]"
  using assms by (auto simp: good_trace_def)

lemma get_subset_Range: "set (get g n) \<subseteq> Range (arcs g)"
  by (auto simp: arcs_def)

lemma trace_good:
  "has_cycle g n s = Inr (b, s') \<Longrightarrow> n \<notin> fst s \<Longrightarrow> snd s \<subseteq> fst s \<Longrightarrow>
     good_trace (fst s) (fst s') (has_cycle_trace g n s) \<and> snd s' \<subseteq> fst s'
       \<and> fst s' \<subseteq> insert n (fst s) \<union> Range (arcs g)"
  "for_neighbor g ms s = Inr (b, s') \<Longrightarrow> snd s \<subseteq> fst s \<Longrightarrow>
     good_trace (fst s) (fst s') (for_neighbor_trace g ms s) \<and> snd s' \<subseteq> fst s'
       \<and> fst s' \<subseteq> fst s \<union> set ms \<union> Range (arcs g)"
proof (induction g n s and g ms s arbitrary: b s' and b s' rule: has_cycle_for_neighbor.induct)
  case (1 g node_id visited rec_stack)
  let ?V1 = "insert node_id visited" and ?R1 = "insert node_id rec_stack"
  let ?enter = "[Call node_id (visited, rec_stack), Update (?V1, rec_stack), Update (?V1, ?R1)]"
  from "1.prems" have fresh: "node_id \<notin> visited" and RV: "rec_stack \<subseteq> visited" by simp_all
  have enter: "good_trace visited ?V1 ?enter" using fresh RV by (rule good_trace_enter)
  have RV1: "snd (?V1, ?R1) \<subseteq> fst (?V1, ?R1)" using RV by auto
  from "1.prems"(1) show ?case
  proof (cases rule: has_cycle_InrE)
    case found
    from "1.IH"[OF found(1) RV1]
    have body: "good_trace ?V1 (fst s') (for_neighbor_trace g (get g node_id) (?V1, ?R1))"
      and RV': "snd s' \<subseteq> fst s'"
      and bound: "fst s' \<subseteq> ?V1 \<union> set (get g node_id) \<union> Range (arcs g)" by simp_all
    from dfs_frame(2)[of g "get g node_id" "(?V1, ?R1)"] found(1)
    have sub: "?V1 \<subseteq> fst s'" by (cases s') auto
    have tr: "has_cycle_trace g node_id (visited, rec_stack)
        = (?enter @ for_neighbor_trace g (get g node_id) (?V1, ?R1)) @ [Return node_id s']"
      using found(1) by simp
    have "good_trace visited (fst s') (has_cycle_trace g node_id (visited, rec_stack))"
      unfolding tr
    proof (rule good_trace_append)
      show "good_trace visited (fst s') (?enter @ for_neighbor_trace g (get g node_id) (?V1, ?R1))"
        using enter body _ sub by (rule good_trace_append) auto
      show "good_trace (fst s') (fst s') [Return node_id s']"
        using good_trace_return[OF RV', of node_id] by simp
      show "visited \<subseteq> fst s'" using sub by auto
    qed simp
    with RV' bound get_subset_Range[of g node_id] show ?thesis by auto
  next
    case (finished V' R')
    from "1.IH"[OF finished(1) RV1]
    have body: "good_trace ?V1 V' (for_neighbor_trace g (get g node_id) (?V1, ?R1))"
      and RV': "R' \<subseteq> V'"
      and bound: "V' \<subseteq> ?V1 \<union> set (get g node_id) \<union> Range (arcs g)" by simp_all
    from dfs_frame(2)[of g "get g node_id" "(?V1, ?R1)"] finished(1)
    have sub: "?V1 \<subseteq> V'" by auto
    let ?leave = "[Update (V', R' - {node_id}), Return node_id (V', R' - {node_id})]"
    have tr: "has_cycle_trace g node_id (visited, rec_stack)
        = (?enter @ for_neighbor_trace g (get g node_id) (?V1, ?R1)) @ ?leave"
      using finished(1,2) by simp
    have "good_trace visited V' (has_cycle_trace g node_id (visited, rec_stack))"
      unfolding tr
    proof (rule good_trace_append)
      show "good_trace visited V' (?enter @ for_neighbor_trace g (get g node_id) (?V1, ?R1))"
        using enter body _ sub by (rule good_trace_append) auto
      show "good_trace V' V' ?leave" using RV' by (rule good_trace_leave)
      show "visited \<subseteq> V'" using sub by auto
    qed simp
    with RV' bound get_subset_Range[of g node_id] finished(3) show ?thesis by auto
  qed
next
  case (2 g s)
  then show ?case by (auto simp: good_trace_Nil)
next
  case (3 g neighbor rest visited rec_stack)
  from "3.prems" have RV: "rec_stack \<subseteq> visited" by simp
  from "3.prems"(1) show ?case
  proof (cases rule: for_neighbor_ConsE)
    case found_below
    from "3.IH"(1)[OF found_below(1) found_below(2)] found_below(1) RV
    have "good_trace visited (fst s') (has_cycle_trace g neighbor (visited, rec_stack))"
      and "snd s' \<subseteq> fst s'"
      and "fst s' \<subseteq> insert neighbor visited \<union> Range (arcs g)" by simp_all
    moreover have "for_neighbor_trace g (neighbor # rest) (visited, rec_stack)
        = has_cycle_trace g neighbor (visited, rec_stack)"
      using found_below by simp
    ultimately show ?thesis by auto
  next
    case (descend s1)
    from "3.IH"(1)[OF descend(1) descend(2)] descend(1) RV
    have t1: "good_trace visited (fst s1) (has_cycle_trace g neighbor (visited, rec_stack))"
      and RV1: "snd s1 \<subseteq> fst s1"
      and b1: "fst s1 \<subseteq> insert neighbor visited \<union> Range (arcs g)" by simp_all
    from "3.IH"(2)[OF descend(1) descend(2) refl _ descend(3) RV1]
    have t2: "good_trace (fst s1) (fst s') (for_neighbor_trace g rest s1)"
      and RV': "snd s' \<subseteq> fst s'"
      and b2: "fst s' \<subseteq> fst s1 \<union> set rest \<union> Range (arcs g)" by simp_all
    from dfs_frame(1)[of g neighbor "(visited, rec_stack)"] descend(2)
    have sub1: "visited \<subseteq> fst s1" by (cases s1) auto
    from dfs_frame(2)[of g rest s1] descend(3)
    have sub2: "fst s1 \<subseteq> fst s'" by (cases s') auto
    have tr: "for_neighbor_trace g (neighbor # rest) (visited, rec_stack)
        = has_cycle_trace g neighbor (visited, rec_stack) @ for_neighbor_trace g rest s1"
      using descend(1,2) by simp
    have "good_trace visited (fst s') (for_neighbor_trace g (neighbor # rest) (visited, rec_stack))"
      unfolding tr using t1 t2 sub1 sub2 by (rule good_trace_append)
    with RV' b1 b2 show ?thesis by auto
  next
    case back_edge
    then show ?thesis using RV by (auto simp: good_trace_Nil)
  next
    case skip
    from "3.IH"(3)[OF _ skip(2) skip(3)] skip(1) RV
    have "good_trace visited (fst s') (for_neighbor_trace g rest (visited, rec_stack))"
      and "snd s' \<subseteq> fst s'"
      and "fst s' \<subseteq> visited \<union> set rest \<union> Range (arcs g)" by simp_all
    moreover have "for_neighbor_trace g (neighbor # rest) (visited, rec_stack)
        = for_neighbor_trace g rest (visited, rec_stack)"
      using skip by simp
    ultimately show ?thesis by auto
  qed
qed


lemma for_node_trace_good:
  "snd s \<subseteq> fst s \<Longrightarrow>
     \<exists>V'. fst s \<subseteq> V' \<and> good_trace (fst s) V' (for_node_trace g ns s)
       \<and> V' \<subseteq> fst s \<union> id_node ` set ns \<union> Range (arcs g)"
proof (induction ns arbitrary: s)
  case Nil
  then show ?case by (auto simp: good_trace_Nil)
next
  case (Cons node rest)
  obtain V R where s: "s = (V, R)" by (cases s)
  show ?case
  proof (cases "id_node node \<in> V")
    case True
    from Cons.IH[OF Cons.prems] obtain V' where
      "fst s \<subseteq> V'" "good_trace (fst s) V' (for_node_trace g rest s)"
      "V' \<subseteq> fst s \<union> id_node ` set rest \<union> Range (arcs g)" by blast
    with True s show ?thesis by auto
  next
    case False
    from dfs_no_error(1)[of g "id_node node" s]
    obtain found s1 where hc: "has_cycle g (id_node node) s = Inr (found, s1)"
      by (cases "has_cycle g (id_node node) s") auto
    from trace_good(1)[OF hc _ Cons.prems] False s
    have t1: "good_trace (fst s) (fst s1) (has_cycle_trace g (id_node node) s)"
      and RV1: "snd s1 \<subseteq> fst s1"
      and b1: "fst s1 \<subseteq> insert (id_node node) (fst s) \<union> Range (arcs g)" by simp_all
    from dfs_frame(1)[of g "id_node node" s] hc
    have sub1: "fst s \<subseteq> fst s1" by (cases s1) auto
    show ?thesis
    proof (cases found)
      case True
      with False s hc have "for_node_trace g (node # rest) s = has_cycle_trace g (id_node node) s"
        by simp
      with t1 sub1 b1 show ?thesis by auto
    next
      case nf: False
      from Cons.IH[OF RV1] obtain V' where
        V': "fst s1 \<subseteq> V'" "good_trace (fst s1) V' (for_node_trace g rest s1)"
        "V' \<subseteq> fst s1 \<union> id_node ` set rest \<union> Range (arcs g)" by blast
      from False s hc nf have "for_node_trace g (node # rest) s
          = has_cycle_trace g (id_node node) s @ for_node_trace g rest s1"
        by simp
      with good_trace_append[OF t1 V'(2) sub1 V'(1)]
      have "good_trace (fst s) V' (for_node_trace g (node # rest) s)" by simp
      with sub1 V'(1,3) b1 show ?thesis by (intro exI[of _ V']) auto
    qed
  qed
qed

lemma check_is_dag_trace_good:
  "\<exists>V'. good_trace {} V' (check_is_dag_trace ns es)
     \<and> V' \<subseteq> id_node ` set ns \<union> target ` set es"
proof (cases "source ` set es \<subseteq> id_node ` set ns")
  case True
  from build_graph_ok[OF True] obtain g where g: "build_graph ns es = Inr g"
    "arcs g = induced_edges es" by blast
  from for_node_trace_good[of "({}, {})" g ns] obtain V' where
    V': "good_trace {} V' (for_node_trace g ns ({}, {}))"
      "V' \<subseteq> id_node ` set ns \<union> Range (arcs g)" by auto
  have "good_trace {} {} [Update ({}, {})]" by (simp add: good_trace_def)
  from good_trace_append[OF this V'(1)]
  have "good_trace {} V' (check_is_dag_trace ns es)"
    using g(1) by (simp add: check_is_dag_trace_def)
  moreover have "Range (arcs g) = target ` set es"
    unfolding g(2) by (force simp: induced_edges_def)
  ultimately show ?thesis using V'(2) by auto
next
  case False
  from build_graph_error[OF False] have "check_is_dag_trace ns es = []"
    by (cases "build_graph ns es") (simp_all add: check_is_dag_trace_def)
  then show ?thesis by (intro exI[of _ "{}"]) (simp add: good_trace_Nil)
qed

lemma depth_from_le: "depth_from d t \<le> d + length (calls t)"
  by (induction d t rule: depth_from.induct) auto

text \<open>The trace of a call of \<^verbatim>\<open>has_cycle\<close> ends with its return, in the state it returns.\<close>

lemma has_cycle_trace_ends:
  assumes "has_cycle g n (V, R) = Inr (b, s')"
  shows "last (has_cycle_trace g n (V, R)) = Return n s'"
  using assms
proof (cases rule: has_cycle_InrE)
  case found
  then show ?thesis by simp
next
  case (finished V' R')
  then show ?thesis by simp
qed

section \<open>The scenarios of the specification\<close>

lemma scenario_A:
  "parse_pipeline \<lparr>nodes = [mk_node ''a'', mk_node ''b'', mk_node ''c''],
                   edges = [mk_edge ''a'' ''b'', mk_edge ''b'' ''c'']\<rparr>
     = Inr \<lparr>num_nodes = 3, num_edges = 2, is_dag = True\<rparr>"
  by (simp add: eval_defs)

lemma scenario_B:
  "parse_pipeline \<lparr>nodes = [mk_node ''a'', mk_node ''b'', mk_node ''c''],
                   edges = [mk_edge ''a'' ''b'', mk_edge ''b'' ''c'', mk_edge ''c'' ''a'']\<rparr>
     = Inr \<lparr>num_nodes = 3, num_edges = 3, is_dag = False\<rparr>"
  by (simp add: eval_defs)

lemma scenario_D:
  "parse_pipeline \<lparr>nodes = [mk_node ''a''], edges = [mk_edge ''a'' ''a'']\<rparr>
     = Inr \<lparr>num_nodes = 1, num_edges = 1, is_dag = False\<rparr>"
  by (simp add: eval_defs)

lemma scenario_E:
  "parse_pipeline \<lparr>nodes = [mk_node ''a'', mk_node ''b''],
                   edges = [mk_edge ''a'' ''b'', mk_edge ''a'' ''b'']\<rparr>
     = Inr \<lparr>num_nodes = 2, num_edges = 2, is_dag = True\<rparr>"
  by (simp add: eval_defs)

text \<open>A target that is not a node is searched like a node without edges.\<close>

lemma dangling_target_tolerated:
  "check_is_dag [mk_node ''a''] [mk_edge ''a'' ''x''] = Inr True"
  by (simp add: eval_defs)

section \<open>The claims\<close>

subsection \<open>The result of the check\<close>

text \<open>
  C1. For every list of nodes with pairwise distinct ids and every list of edges whose
  sources and targets are ids of the node list, \<open>check_is_dag\<close> returns \<open>True\<close> when the
  induced graph contains no cycle and \<open>False\<close> when it contains one.
\<close>

theorem check_is_dag_iff_acyclic:
  assumes "distinct (map id_node ns)"
    and "source ` set es \<subseteq> id_node ` set ns"
    and "target ` set es \<subseteq> id_node ` set ns"
  shows "check_is_dag ns es = Inr (\<not> contains_cycle es)"
  using assms(2) by (rule check_is_dag_decides)

theorem check_is_dag_iff_acyclic_witness:
  "distinct (map id_node [mk_node ''a'', mk_node ''b'', mk_node ''c''])
   \<and> source ` set [mk_edge ''a'' ''b'', mk_edge ''b'' ''c'', mk_edge ''c'' ''a'']
       \<subseteq> id_node ` set [mk_node ''a'', mk_node ''b'', mk_node ''c'']
   \<and> target ` set [mk_edge ''a'' ''b'', mk_edge ''b'' ''c'', mk_edge ''c'' ''a'']
       \<subseteq> id_node ` set [mk_node ''a'', mk_node ''b'', mk_node ''c'']
   \<and> check_is_dag [mk_node ''a'', mk_node ''b'', mk_node ''c'']
        [mk_edge ''a'' ''b'', mk_edge ''b'' ''c'', mk_edge ''c'' ''a''] = Inr False
   \<and> contains_cycle [mk_edge ''a'' ''b'', mk_edge ''b'' ''c'', mk_edge ''c'' ''a'']"
proof -
  let ?ns = "[mk_node ''a'', mk_node ''b'', mk_node ''c'']"
  let ?es = "[mk_edge ''a'' ''b'', mk_edge ''b'' ''c'', mk_edge ''c'' ''a'']"
  have d: "distinct (map id_node ?ns)" by (simp add: mk_node_def)
  have s: "source ` set ?es \<subseteq> id_node ` set ?ns" by (simp add: mk_node_def mk_edge_def)
  have t: "target ` set ?es \<subseteq> id_node ` set ?ns" by (simp add: mk_node_def mk_edge_def)
  have run: "check_is_dag ?ns ?es = Inr False" by (simp add: eval_defs)
  from check_is_dag_iff_acyclic[OF d s t] run have "contains_cycle ?es" by simp
  with d s t run show ?thesis by blast
qed

subsection \<open>An edge whose source is not a node\<close>

text \<open>
  C2. The claim says that an edge whose source id is absent from the node list raises
  no error. On the node list \<open>[a]\<close> with the single edge \<open>z \<rightarrow> a\<close> the subscript
  \<^verbatim>\<open>graph[edge.source]\<close> raises \<^verbatim>\<open>KeyError('z')\<close>, and no boolean is returned.
\<close>

theorem check_is_dag_dangling_source_raises:
  "check_is_dag [mk_node ''a''] [mk_edge ''z'' ''a''] = Inl (KeyError ''z'')"
  by (simp add: eval_defs)

subsection \<open>The endpoint\<close>

text \<open>
  C3. The claim says that \<open>parse_pipeline\<close> returns, for every pipeline, a record with
  the two lengths and the result of \<open>check_is_dag\<close>. For the nodes \<open>[a, b]\<close> with the
  edges \<open>a \<rightarrow> b\<close> and \<open>c \<rightarrow> a\<close> no record is returned: the subscript
  \<^verbatim>\<open>graph[edge.source]\<close> of line 65 raises \<^verbatim>\<open>KeyError('c')\<close> inside \<open>check_is_dag\<close>,
  and \<open>parse_pipeline\<close> passes the exception on.
\<close>

theorem parse_pipeline_dangling_source_raises:
  "parse_pipeline \<lparr>nodes = [mk_node ''a'', mk_node ''b''],
                   edges = [mk_edge ''a'' ''b'', mk_edge ''c'' ''a'']\<rparr>
     = Inl (KeyError ''c'')"
  by (simp add: eval_defs)

text \<open>
  Where the subscript of line 65 does not raise, the record has the two lengths and
  the boolean that \<open>check_is_dag\<close> returns.
\<close>

lemma parse_pipeline_fields:
  assumes "source ` set (edges p) \<subseteq> id_node ` set (nodes p)"
  shows "\<exists>r. parse_pipeline p = Inr r
           \<and> num_nodes r = int (length (nodes p))
           \<and> num_edges r = int (length (edges p))
           \<and> check_is_dag (nodes p) (edges p) = Inr (is_dag r)"
  using check_is_dag_decides[OF assms] by (simp add: parse_pipeline_def)

text \<open>
  C4. With no nodes and no edges the endpoint answers
  \<open>num_nodes = 0\<close>, \<open>num_edges = 0\<close> and \<open>is_dag = True\<close>.
\<close>

theorem empty_pipeline_is_dag:
  "parse_pipeline \<lparr>nodes = ([] :: 'p Node list), edges = []\<rparr>
     = Inr \<lparr>num_nodes = 0, num_edges = 0, is_dag = True\<rparr>"
  by (simp add: parse_pipeline_def check_is_dag_def build_graph_def init_graph_def)

subsection \<open>Repeated node ids\<close>

text \<open>
  C5. For every node list in which some id occurs twice and every edge list whose
  sources and targets are ids of the node list, \<open>check_is_dag\<close> raises nothing and
  returns a boolean.
\<close>

theorem check_is_dag_duplicate_ids:
  assumes "\<not> distinct (map id_node ns)"
    and "source ` set es \<subseteq> id_node ` set ns"
    and "target ` set es \<subseteq> id_node ` set ns"
  shows "\<exists>b. check_is_dag ns es = Inr b"
  using check_is_dag_decides[OF assms(2)] by blast

theorem check_is_dag_duplicate_ids_witness:
  "\<not> distinct (map id_node [mk_node ''a'', mk_node ''b'', mk_node ''a''])
   \<and> source ` set [mk_edge ''a'' ''b''] \<subseteq> id_node ` set [mk_node ''a'', mk_node ''b'', mk_node ''a'']
   \<and> target ` set [mk_edge ''a'' ''b''] \<subseteq> id_node ` set [mk_node ''a'', mk_node ''b'', mk_node ''a'']
   \<and> (\<exists>b. check_is_dag [mk_node ''a'', mk_node ''b'', mk_node ''a''] [mk_edge ''a'' ''b''] = Inr b)"
proof -
  let ?ns = "[mk_node ''a'', mk_node ''b'', mk_node ''a'']"
  let ?es = "[mk_edge ''a'' ''b'']"
  have d: "\<not> distinct (map id_node ?ns)" by (simp add: mk_node_def)
  have s: "source ` set ?es \<subseteq> id_node ` set ?ns" by (simp add: mk_node_def mk_edge_def)
  have t: "target ` set ?es \<subseteq> id_node ` set ?ns" by (simp add: mk_node_def mk_edge_def)
  from check_is_dag_duplicate_ids[OF d s t] d s t show ?thesis by blast
qed

subsection \<open>Self-loops\<close>

text \<open>
  C6. The claim says that every input with a self-loop on a node makes
  \<open>check_is_dag\<close> return \<open>False\<close>. With the node \<open>a\<close> and the edges \<open>a \<rightarrow> a\<close> and
  \<open>z \<rightarrow> a\<close> the input contains such a self-loop, and the call returns nothing: the
  subscript \<^verbatim>\<open>graph[edge.source]\<close> of line 65 raises \<^verbatim>\<open>KeyError('z')\<close> on the second
  edge before the search starts.
\<close>

theorem self_loop_dangling_source_raises:
  "mk_edge ''a'' ''a'' \<in> set [mk_edge ''a'' ''a'', mk_edge ''z'' ''a'']
   \<and> source (mk_edge ''a'' ''a'') = target (mk_edge ''a'' ''a'')
   \<and> source (mk_edge ''a'' ''a'') \<in> id_node ` set [mk_node ''a'']
   \<and> check_is_dag [mk_node ''a''] [mk_edge ''a'' ''a'', mk_edge ''z'' ''a'']
       = Inl (KeyError ''z'')"
  by (simp add: eval_defs)

text \<open>
  Where the subscript of line 65 does not raise, the search finds every self-loop.
\<close>

lemma self_loop_not_dag:
  assumes "source ` set es \<subseteq> id_node ` set ns"
    and "e \<in> set es" and "source e = target e"
  shows "check_is_dag ns es = Inr False"
proof -
  from assms(2,3) have "(source e, source e) \<in> induced_edges es"
    by (force simp: induced_edges_def)
  then have "contains_cycle es"
    unfolding contains_cycle_def by blast
  with check_is_dag_decides[OF assms(1)] show ?thesis by simp
qed

subsection \<open>Order of the input lists\<close>

text \<open>
  C7. For every input and every permutation of its node list and of its edge list,
  the outputs \<open>is_dag\<close>, \<open>num_nodes\<close> and \<open>num_edges\<close> of the detector are the same for
  the permuted input as for the input; where the input makes the call raise, so does
  the permuted input.
\<close>

theorem parse_pipeline_permutation:
  assumes "mset (nodes p') = mset (nodes p)"
    and "mset (edges p') = mset (edges p)"
  shows "outputs (parse_pipeline p') = outputs (parse_pipeline p)"
proof -
  from assms have sets: "set (nodes p') = set (nodes p)" "set (edges p') = set (edges p)"
    by (auto dest: mset_eq_setD)
  from assms have lens: "length (nodes p') = length (nodes p)"
    "length (edges p') = length (edges p)"
    by (auto dest: mset_eq_length)
  show ?thesis
  proof (cases "source ` set (edges p) \<subseteq> id_node ` set (nodes p)")
    case True
    then have ok': "source ` set (edges p') \<subseteq> id_node ` set (nodes p')"
      using sets by simp
    have "contains_cycle (edges p') = contains_cycle (edges p)"
      using sets(2) by (simp add: contains_cycle_def induced_edges_def)
    with check_is_dag_decides[OF True] check_is_dag_decides[OF ok'] lens
    show ?thesis by (simp add: parse_pipeline_def outputs_def)
  next
    case False
    then have bad': "\<not> source ` set (edges p') \<subseteq> id_node ` set (nodes p')"
      using sets by simp
    from check_is_dag_raises[OF False] check_is_dag_raises[OF bad']
    show ?thesis
      by (auto simp: parse_pipeline_def outputs_def isl_def)
  qed
qed

theorem parse_pipeline_permutation_witness:
  "mset (nodes \<lparr>nodes = [mk_node ''b'', mk_node ''a''],
               edges = [mk_edge ''b'' ''a'', mk_edge ''a'' ''b'']\<rparr>)
     = mset (nodes \<lparr>nodes = [mk_node ''a'', mk_node ''b''],
                    edges = [mk_edge ''a'' ''b'', mk_edge ''b'' ''a'']\<rparr>)
   \<and> mset (edges \<lparr>nodes = [mk_node ''b'', mk_node ''a''],
               edges = [mk_edge ''b'' ''a'', mk_edge ''a'' ''b'']\<rparr>)
     = mset (edges \<lparr>nodes = [mk_node ''a'', mk_node ''b''],
                    edges = [mk_edge ''a'' ''b'', mk_edge ''b'' ''a'']\<rparr>)
   \<and> outputs (parse_pipeline \<lparr>nodes = [mk_node ''b'', mk_node ''a''],
               edges = [mk_edge ''b'' ''a'', mk_edge ''a'' ''b'']\<rparr>)
     = Some \<lparr>num_nodes = 2, num_edges = 2, is_dag = False\<rparr>"
proof -
  let ?p = "\<lparr>nodes = [mk_node ''a'', mk_node ''b''],
             edges = [mk_edge ''a'' ''b'', mk_edge ''b'' ''a'']\<rparr>"
  let ?p' = "\<lparr>nodes = [mk_node ''b'', mk_node ''a''],
              edges = [mk_edge ''b'' ''a'', mk_edge ''a'' ''b'']\<rparr>"
  have n: "mset (nodes ?p') = mset (nodes ?p)" by (simp add: add.commute)
  have e: "mset (edges ?p') = mset (edges ?p)" by (simp add: add.commute)
  have run: "outputs (parse_pipeline ?p) = Some \<lparr>num_nodes = 2, num_edges = 2, is_dag = False\<rparr>"
    by (simp add: eval_defs outputs_def)
  from parse_pipeline_permutation[OF n e] run n e show ?thesis by simp
qed

subsection \<open>The stack is part of the visited set\<close>

text \<open>
  C9. In every state that the two sets pass through during a call of \<open>check_is_dag\<close>,
  \<^verbatim>\<open>rec_stack\<close> is a subset of \<^verbatim>\<open>visited\<close>; so in every such state the test
  \<^verbatim>\<open>neighbor in rec_stack\<close> of the code is equivalent to the condition that the
  neighbour is visited and on the stack.
\<close>

theorem rec_stack_subset_visited:
  "\<forall>e \<in> set (check_is_dag_trace ns es).
      snd (state_of e) \<subseteq> fst (state_of e)
      \<and> (\<forall>neighbor. neighbor \<in> snd (state_of e)
            \<longleftrightarrow> neighbor \<in> fst (state_of e) \<and> neighbor \<in> snd (state_of e))"
proof -
  from check_is_dag_trace_good[of ns es] obtain V' where
    "good_trace {} V' (check_is_dag_trace ns es)" by blast
  then have "\<forall>e \<in> set (check_is_dag_trace ns es). snd (state_of e) \<subseteq> fst (state_of e)"
    by (simp add: good_trace_def)
  then show ?thesis by blast
qed

theorem rec_stack_subset_visited_witness:
  "Update ({''a''}, {''a''})
     \<in> set (check_is_dag_trace [mk_node ''a'', mk_node ''b''] [mk_edge ''a'' ''b''])
   \<and> snd (state_of (Update ({''a''}, {''a''}))) \<subseteq> fst (state_of (Update ({''a''}, {''a''})))
   \<and> (''a'' \<in> snd (state_of (Update ({''a''}, {''a''})))
        \<longleftrightarrow> ''a'' \<in> fst (state_of (Update ({''a''}, {''a''})))
            \<and> ''a'' \<in> snd (state_of (Update ({''a''}, {''a''}))))"
proof -
  have m: "Update ({''a''}, {''a''})
     \<in> set (check_is_dag_trace [mk_node ''a'', mk_node ''b''] [mk_edge ''a'' ''b''])"
    by (simp add: trace_defs)
  from rec_stack_subset_visited[of "[mk_node ''a'', mk_node ''b'']" "[mk_edge ''a'' ''b'']"] m
  have "snd (state_of (Update ({''a''}, {''a''}))) \<subseteq> fst (state_of (Update ({''a''}, {''a''})))"
    by blast
  with m show ?thesis by simp
qed

subsection \<open>Termination and the number of calls\<close>

text \<open>
  C10. For every input whose edge sources are all ids of the node list,
  \<open>check_is_dag\<close> returns a boolean; every call of \<^verbatim>\<open>has_cycle\<close> is on an id that is
  not in \<^verbatim>\<open>visited\<close> when the call is made; \<^verbatim>\<open>visited\<close> only grows from one state to
  any later one; and the number of calls of \<^verbatim>\<open>has_cycle\<close>, and with it the depth of
  the recursion, is at most the number of distinct ids among the node ids and the edge
  targets, which are the ids a search can reach.
\<close>

theorem check_is_dag_terminates:
  assumes "source ` set es \<subseteq> id_node ` set ns"
  shows "(\<exists>b. check_is_dag ns es = Inr b)
    \<and> (\<forall>n V R. Call n (V, R) \<in> set (check_is_dag_trace ns es) \<longrightarrow> n \<notin> V)
    \<and> sorted_wrt (\<lambda>e e'. fst (state_of e) \<subseteq> fst (state_of e')) (check_is_dag_trace ns es)
    \<and> length (calls (check_is_dag_trace ns es)) \<le> card (id_node ` set ns \<union> target ` set es)
    \<and> depth_from 0 (check_is_dag_trace ns es) \<le> card (id_node ` set ns \<union> target ` set es)"
proof -
  let ?t = "check_is_dag_trace ns es"
  from check_is_dag_trace_good[of ns es] obtain V' where
    good: "good_trace {} V' ?t" and V': "V' \<subseteq> id_node ` set ns \<union> target ` set es" by blast
  have ret: "\<exists>b. check_is_dag ns es = Inr b"
    using check_is_dag_decides[OF assms] by blast
  have fresh: "\<forall>n V R. Call n (V, R) \<in> set ?t \<longrightarrow> n \<notin> V"
  proof (intro allI impI)
    fix n V R assume "Call n (V, R) \<in> set ?t"
    with good have "fresh_call (Call n (V, R))" unfolding good_trace_def by blast
    then show "n \<notin> V" by simp
  qed
  have grows: "sorted_wrt (\<lambda>e e'. fst (state_of e) \<subseteq> fst (state_of e')) ?t"
    using good by (simp add: good_trace_def)
  from good have "distinct (calls ?t)" "set (calls ?t) = V'" by (simp_all add: good_trace_def)
  then have "length (calls ?t) = card V'" by (metis distinct_card)
  also have "\<dots> \<le> card (id_node ` set ns \<union> target ` set es)"
    using V' by (intro card_mono) auto
  finally have n_calls: "length (calls ?t) \<le> card (id_node ` set ns \<union> target ` set es)" .
  from depth_from_le[of 0 ?t] n_calls
  have "depth_from 0 ?t \<le> card (id_node ` set ns \<union> target ` set es)" by simp
  with ret fresh grows n_calls show ?thesis by blast
qed

theorem check_is_dag_terminates_witness:
  "source ` set [mk_edge ''a'' ''b'', mk_edge ''a'' ''c'']
     \<subseteq> id_node ` set [mk_node ''a'', mk_node ''b'', mk_node ''c'']
   \<and> check_is_dag [mk_node ''a'', mk_node ''b'', mk_node ''c'']
        [mk_edge ''a'' ''b'', mk_edge ''a'' ''c''] = Inr True
   \<and> calls (check_is_dag_trace [mk_node ''a'', mk_node ''b'', mk_node ''c'']
        [mk_edge ''a'' ''b'', mk_edge ''a'' ''c'']) = [''a'', ''b'', ''c'']
   \<and> depth_from 0 (check_is_dag_trace [mk_node ''a'', mk_node ''b'', mk_node ''c'']
        [mk_edge ''a'' ''b'', mk_edge ''a'' ''c''])
       \<le> card (id_node ` set [mk_node ''a'', mk_node ''b'', mk_node ''c'']
               \<union> target ` set [mk_edge ''a'' ''b'', mk_edge ''a'' ''c''])"
proof -
  let ?ns = "[mk_node ''a'', mk_node ''b'', mk_node ''c'']"
  let ?es = "[mk_edge ''a'' ''b'', mk_edge ''a'' ''c'']"
  have s: "source ` set ?es \<subseteq> id_node ` set ?ns" by (simp add: mk_node_def mk_edge_def)
  have run: "check_is_dag ?ns ?es = Inr True" by (simp add: eval_defs)
  have cs: "calls (check_is_dag_trace ?ns ?es) = [''a'', ''b'', ''c'']"
    by (simp add: trace_defs)
  from check_is_dag_terminates[OF s]
  have "depth_from 0 (check_is_dag_trace ?ns ?es)
      \<le> card (id_node ` set ?ns \<union> target ` set ?es)" by blast
  with s run cs show ?thesis by blast
qed

end
